theory Spec2Isabelle
  imports Main
begin

section \<open>Text\<close>

text \<open>
  Python strings are modelled as HOL strings. A character is one of the 256 code points
  of Latin-1, which is what the type \<open>char\<close> holds; the character classes below are the
  ones Python's \<open>re\<close> and \<open>str\<close> use on that range.
\<close>

definition DQ :: char where
  "DQ = CHR 0x22"

text \<open>The characters \<open>\s\<close> matches (\<open>str.isspace\<close>) and the ones \<open>\d\<close> matches.\<close>

definition whitespace :: string where
  "whitespace = [CHR 0x09, CHR 0x0A, CHR 0x0B, CHR 0x0C, CHR 0x0D,
                 CHR 0x1C, CHR 0x1D, CHR 0x1E, CHR 0x1F, CHR 0x20, CHR 0x85, CHR 0xA0]"

definition digits :: string where
  "digits = ''0123456789''"

text \<open>\<open>str.lower()\<close>: the upper-case letters of Latin-1 move up by 32.\<close>

definition py_lower_char :: "char \<Rightarrow> char" where
  "py_lower_char c =
     (let n = (of_char c :: nat)
      in if (65 \<le> n \<and> n \<le> 90) \<or> (192 \<le> n \<and> n \<le> 214) \<or> (216 \<le> n \<and> n \<le> 222)
         then char_of (n + 32) else c)"

definition py_lower :: "string \<Rightarrow> string" where
  "py_lower s = map py_lower_char s"

text \<open>\<open>w in s\<close> on strings: \<open>w\<close> occurs in \<open>s\<close> as a contiguous substring.\<close>

fun py_in :: "string \<Rightarrow> string \<Rightarrow> bool" where
  "py_in w [] = (w = [])"
| "py_in w (c # s) = (take (length w) (c # s) = w \<or> py_in w s)"

definition py_startswith :: "string \<Rightarrow> string \<Rightarrow> bool" where
  "py_startswith s p = (take (length p) s = p)"

section \<open>Regular expressions\<close>

text \<open>
  The fragment of Python's \<open>re\<close> that \<open>LOG_PATTERN\<close> is written in: literal text,
  a character class under a greedy \<open>+\<close>, \<open>*\<close> or \<open>{n}\<close>, alternation, named groups
  and concatenation.
\<close>

datatype charset = NonSpace | Digit | NoneOf string

fun in_class :: "charset \<Rightarrow> char \<Rightarrow> bool" where
  "in_class NonSpace c = (c \<notin> set whitespace)"
| "in_class Digit c = (c \<in> set digits)"
| "in_class (NoneOf cs) c = (c \<notin> set cs)"

datatype regex =
    Lit string
  | Many1 charset
  | Many charset
  | Exactly nat charset
  | Alt regex regex
  | Group string regex
  | Cat "regex list"

type_synonym groups = "(string \<times> string) list"

text \<open>
  A match is the text matched, the named groups it captured (in the order of the groups
  in the pattern) and the rest of the input.
\<close>

type_synonym rmatch_result = "string \<times> groups \<times> string"

text \<open>
  The ways a greedy repetition of a character class can consume a prefix of the input,
  in the order the backtracking matcher tries them: the longest run first, then one
  character fewer at a time, down to the empty run.
\<close>

fun splits :: "charset \<Rightarrow> string \<Rightarrow> (string \<times> string) list" where
  "splits cs [] = [([], [])]"
| "splits cs (c # s) =
     (if in_class cs c then map (\<lambda>(a, b). (c # a, b)) (splits cs s) @ [([], c # s)]
      else [([], c # s)])"

text \<open>
  \<open>rmatch r s\<close> lists every match of \<open>r\<close> at the start of \<open>s\<close> in the order in which
  the backtracking matcher would find them: the first element is the match \<open>re\<close> reports,
  the later ones are what it would fall back to.
\<close>

fun rmatch :: "regex \<Rightarrow> string \<Rightarrow> rmatch_result list"
  and rmatch_seq :: "regex list \<Rightarrow> string \<Rightarrow> rmatch_result list" where
  "rmatch (Lit l) s = (if take (length l) s = l then [(l, [], drop (length l) s)] else [])"
| "rmatch (Many1 cs) s =
     map (\<lambda>(a, b). (a, [], b)) (filter (\<lambda>(a, b). a \<noteq> []) (splits cs s))"
| "rmatch (Many cs) s = map (\<lambda>(a, b). (a, [], b)) (splits cs s)"
| "rmatch (Exactly n cs) s =
     (if n \<le> length s \<and> list_all (in_class cs) (take n s)
      then [(take n s, [], drop n s)] else [])"
| "rmatch (Alt r1 r2) s = rmatch r1 s @ rmatch r2 s"
| "rmatch (Group name r) s = map (\<lambda>(m, g, rest). (m, (name, m) # g, rest)) (rmatch r s)"
| "rmatch (Cat rs) s = rmatch_seq rs s"
| "rmatch_seq [] s = [([], [], s)]"
| "rmatch_seq (r # rs) s =
     concat (map (\<lambda>(m1, g1, s1).
                    map (\<lambda>(m2, g2, s2). (m1 @ m2, g1 @ g2, s2)) (rmatch_seq rs s1))
                 (rmatch r s))"

text \<open>
  \<open>pattern.search(s)\<close>: the first match at the leftmost position that has one; the
  position after the last character is tried as well.
\<close>

fun search :: "regex \<Rightarrow> string \<Rightarrow> rmatch_result option" where
  "search r [] = (case rmatch r [] of [] \<Rightarrow> None | x # _ \<Rightarrow> Some x)"
| "search r (c # s) = (case rmatch r (c # s) of [] \<Rightarrow> search r s | x # _ \<Rightarrow> Some x)"

section \<open>Configuration and the log pattern\<close>

definition ACCESS_LOG :: string where
  "ACCESS_LOG = ''/var/log/nginx/access.log''"

definition LOG_LIMIT :: int where
  "LOG_LIMIT = 500"

definition LOG_PATTERN :: regex where
  "LOG_PATTERN = Cat
     [Group ''ip'' (Many1 NonSpace), Lit '' - '', Group ''user'' (Many1 NonSpace),
      Lit '' ['', Group ''date'' (Many1 (NoneOf '']'')), Lit ''] '',
      Lit [DQ], Group ''method'' (Many1 NonSpace), Lit '' '',
      Group ''url'' (Many1 NonSpace), Lit '' '',
      Group ''protocol'' (Many1 NonSpace), Lit [DQ], Lit '' '',
      Group ''status'' (Exactly 3 Digit), Lit '' '',
      Group ''size'' (Alt (Many1 Digit) (Lit ''-'')), Lit '' '',
      Lit [DQ], Group ''referrer'' (Many (NoneOf [DQ])), Lit [DQ], Lit '' '',
      Lit [DQ], Group ''agent'' (Many (NoneOf [DQ])), Lit [DQ]]"

section \<open>Log entries\<close>

text \<open>
  \<open>m.groupdict()\<close> is a dictionary with the ten group names as its keys; the data
  frame built from these dictionaries has one column per key. An entry is the record
  with these ten fields.
\<close>

record log_entry =
  ip :: string
  user :: string
  date :: string
  method_field :: string
  url :: string
  protocol :: string
  status :: string
  size_field :: string
  referrer :: string
  agent :: string

text \<open>The value of a named group; a group that took no part in the match has none.\<close>

definition group :: "groups \<Rightarrow> string \<Rightarrow> string" where
  "group g name = (case map_of g name of Some v \<Rightarrow> v | None \<Rightarrow> [])"

definition groupdict :: "rmatch_result \<Rightarrow> log_entry" where
  "groupdict m =
     (let g = fst (snd m)
      in \<lparr> ip = group g ''ip'', user = group g ''user'', date = group g ''date'',
           method_field = group g ''method'', url = group g ''url'',
           protocol = group g ''protocol'', status = group g ''status'',
           size_field = group g ''size'', referrer = group g ''referrer'',
           agent = group g ''agent'' \<rparr>)"

text \<open>Lines 36 to 38 of the source: one line gives an entry or nothing.\<close>

definition parse_line :: "string \<Rightarrow> log_entry option" where
  "parse_line line = map_option groupdict (search LOG_PATTERN line)"

text \<open>The loop over the lines, appending to \<open>entries\<close>.\<close>

fun ingest :: "string list \<Rightarrow> log_entry list \<Rightarrow> log_entry list" where
  "ingest [] entries = entries"
| "ingest (line # lines) entries =
     (case parse_line line of
        None \<Rightarrow> ingest lines entries
      | Some e \<Rightarrow> ingest lines (entries @ [e]))"

text \<open>
  \<open>xs[-limit:]\<close>: a slice from the start index \<open>-limit\<close> to the end. A negative start
  counts from the end and stops at the first element; a start that is not negative
  counts from the front and stops at the end.
\<close>

definition slice_from :: "int \<Rightarrow> 'a list \<Rightarrow> 'a list" where
  "slice_from start xs =
     (let n = int (length xs);
          i = (if start < 0 then max 0 (n + start) else min start n)
      in drop (nat i) xs)"

text \<open>
  What opening and reading the log file gives: the file is missing, or its lines
  (each as \<open>readlines()\<close> returns it).
\<close>

datatype source = FileNotFound | Readable "string list"

section \<open>Values printed and returned\<close>

datatype pyval = PInt nat | PDict "(string \<times> pyval) list"

fun pyget :: "pyval \<Rightarrow> string \<Rightarrow> pyval option" where
  "pyget (PDict kvs) k = map_of kvs k"
| "pyget (PInt n) k = None"

datatype message =
    LogFileNotFound string
  | NoLogsParsed
  | Banner
  | Goodbye
  | CorrectedInput string
  | AnomaliesDetected pyval
  | NoAnomalies
  | StatusTable "(string \<times> nat) list"
  | TopIps "(string \<times> nat) list"
  | TopUrls "(string \<times> nat) list"
  | AiAnswer string

text \<open>\<open>parse_nginx_logs\<close>: what it prints and what it returns.\<close>

fun parse_nginx_logs :: "int \<Rightarrow> source \<Rightarrow> message list \<times> log_entry list" where
  "parse_nginx_logs limit FileNotFound = ([LogFileNotFound ACCESS_LOG], [])"
| "parse_nginx_logs limit (Readable file_lines) = ([], ingest (slice_from (- limit) file_lines) [])"

section \<open>Counting values\<close>

text \<open>
  \<open>Series.value_counts()\<close> of pandas: the distinct values are counted in one pass, and
  the table of counts is then sorted by count, largest first. The sort is the library's,
  not the program's, and nothing in the program says how it orders equal counts: it is
  the parameter \<open>sort_values\<close> below, of which only \<open>descending_sort\<close> is assumed.
\<close>

fun bump :: "'a \<Rightarrow> ('a \<times> nat) list \<Rightarrow> ('a \<times> nat) list" where
  "bump x [] = [(x, 1)]"
| "bump x ((k, c) # t) = (if k = x then (k, Suc c) # t else (k, c) # bump x t)"

definition count_values :: "'a list \<Rightarrow> ('a \<times> nat) list" where
  "count_values xs = foldl (\<lambda>t x. bump x t) [] xs"

fun insert_desc :: "('a \<times> nat) \<Rightarrow> ('a \<times> nat) list \<Rightarrow> ('a \<times> nat) list" where
  "insert_desc x [] = [x]"
| "insert_desc x (y # ys) = (if snd x < snd y then y # insert_desc x ys else x # y # ys)"

definition sort_desc :: "('a \<times> nat) list \<Rightarrow> ('a \<times> nat) list" where
  "sort_desc t = foldr insert_desc t []"

definition value_counts_by ::
  "(('a \<times> nat) list \<Rightarrow> ('a \<times> nat) list) \<Rightarrow> 'a list \<Rightarrow> ('a \<times> nat) list" where
  "value_counts_by sort_values xs = sort_values (count_values xs)"

text \<open>
  What is assumed of the sort: it returns the rows it was given, with the counts in
  descending order.
\<close>

definition descending_sort :: "(('a \<times> nat) list \<Rightarrow> ('a \<times> nat) list) \<Rightarrow> bool" where
  "descending_sort sort_values =
     (\<forall>t. set (sort_values t) = set t \<and> length (sort_values t) = length t \<and>
          sorted_wrt (\<lambda>a b. snd b \<le> snd a) (sort_values t))"


definition value_counts :: "'a list \<Rightarrow> ('a \<times> nat) list" where
  "value_counts xs = value_counts_by sort_desc xs"

definition to_dict :: "(string \<times> nat) list \<Rightarrow> pyval" where
  "to_dict kc = PDict (map (\<lambda>(k, c). (k, PInt c)) kc)"

section \<open>Summary and anomalies\<close>

type_synonym dataframe = "log_entry list"

definition generate_summary_by ::
  "((string \<times> nat) list \<Rightarrow> (string \<times> nat) list) \<Rightarrow> dataframe \<Rightarrow> pyval" where
  "generate_summary_by sort_values df = PDict
     [(''total_requests'', PInt (length df)),
      (''status_counts'', to_dict (value_counts_by sort_values (map status df))),
      (''top_ips'', to_dict (take 3 (value_counts_by sort_values (map ip df)))),
      (''top_urls'', to_dict (take 3 (value_counts_by sort_values (map url df))))]"

definition detect_anomalies_by ::
  "((string \<times> nat) list \<Rightarrow> (string \<times> nat) list) \<Rightarrow> dataframe \<Rightarrow> pyval" where
  "detect_anomalies_by sort_values df =
     (let error_counts =
            value_counts_by sort_values
              (map status (filter (\<lambda>row. py_startswith (status row) ''5'') df))
      in if error_counts \<noteq> [] then PDict [(''5xx_errors'', to_dict error_counts)]
         else PDict [])"

text \<open>The two functions run with \<open>sort_desc\<close>.\<close>

definition generate_summary :: "dataframe \<Rightarrow> pyval" where
  "generate_summary df = generate_summary_by sort_desc df"

definition detect_anomalies :: "dataframe \<Rightarrow> pyval" where
  "detect_anomalies df = detect_anomalies_by sort_desc df"

section \<open>The main program\<close>

text \<open>Start-up: the program exits with status 1 when no entry was parsed.\<close>

datatype startup = Exit nat "message list" | Started "message list" dataframe

definition main_startup :: "source \<Rightarrow> startup" where
  "main_startup src =
     (case parse_nginx_logs LOG_LIMIT src of
        (out, logs) \<Rightarrow>
          if logs = [] then Exit 1 (out @ [NoLogsParsed])
          else Started (out @ [Banner]) logs)"

text \<open>The two conditions of the query loop, lines 120 and 127.\<close>

definition display_anomalies :: "string \<Rightarrow> bool" where
  "display_anomalies corrected_q = py_in ''anomaly'' (py_lower corrected_q)"

definition table_words :: "string list" where
  "table_words = [''status'', ''ip'', ''url'', ''table'', ''top'']"

definition display_tables :: "string \<Rightarrow> bool" where
  "display_tables corrected_q = list_ex (\<lambda>word. py_in word (py_lower corrected_q)) table_words"

text \<open>The tables of the display, lines 129 to 136.\<close>

definition table_status ::
  "((string \<times> nat) list \<Rightarrow> (string \<times> nat) list) \<Rightarrow> dataframe \<Rightarrow> (string \<times> nat) list" where
  "table_status sort_values df = value_counts_by sort_values (map status df)"

definition table_top_ips ::
  "((string \<times> nat) list \<Rightarrow> (string \<times> nat) list) \<Rightarrow> dataframe \<Rightarrow> (string \<times> nat) list" where
  "table_top_ips sort_values df = take 10 (value_counts_by sort_values (map ip df))"

definition table_top_urls ::
  "((string \<times> nat) list \<Rightarrow> (string \<times> nat) list) \<Rightarrow> dataframe \<Rightarrow> (string \<times> nat) list" where
  "table_top_urls sort_values df = take 10 (value_counts_by sort_values (map url df))"

text \<open>
  One turn of the query loop on the stripped input \<open>q\<close>. The spelling corrector, the
  language model and the sort of pandas are outside the program and are parameters here.
\<close>

datatype turn = Break "message list" | Next_turn "message list"

definition query_turn ::
  "(string \<Rightarrow> string) \<Rightarrow> (string \<Rightarrow> pyval \<Rightarrow> pyval \<Rightarrow> string) \<Rightarrow>
   ((string \<times> nat) list \<Rightarrow> (string \<times> nat) list) \<Rightarrow> dataframe \<Rightarrow> string \<Rightarrow> turn" where
  "query_turn correct_spelling ask_ai sort_values df q =
     (if py_lower q \<in> set [''exit'', ''quit''] then Break [Goodbye]
      else
        let corrected_q = correct_spelling q;
            shown_correction = (if corrected_q \<noteq> q then [CorrectedInput corrected_q] else []);
            summary = generate_summary_by sort_values df;
            anomalies = detect_anomalies_by sort_values df;
            shown_anomalies =
              (if display_anomalies corrected_q
               then (if anomalies \<noteq> PDict [] then [AnomaliesDetected anomalies]
                     else [NoAnomalies])
               else []);
            shown_tables =
              (if display_tables corrected_q
               then [StatusTable (table_status sort_values df),
                     TopIps (table_top_ips sort_values df),
                     TopUrls (table_top_urls sort_values df)]
               else []);
            answer = ask_ai corrected_q summary anomalies
        in Next_turn (shown_correction @ shown_anomalies @ shown_tables @ [AiAnswer answer]))"

section \<open>The grammar of a log line, as the specification words it\<close>

text \<open>
  The fields of a conforming line: the address, the user, the three tokens of the request
  and the timestamp are not empty; the address, the user and the request tokens hold no
  whitespace; the timestamp holds no closing bracket; the status is three digits; the
  size is one or more digits or a dash; the referrer and the agent hold no quote.
\<close>

definition token :: "string \<Rightarrow> bool" where
  "token t = (t \<noteq> [] \<and> list_all (\<lambda>c. c \<notin> set whitespace) t)"

definition grammar_fields :: "log_entry \<Rightarrow> bool" where
  "grammar_fields e =
     (token (ip e) \<and> token (user e) \<and>
      date e \<noteq> [] \<and> list_all (\<lambda>c. c \<noteq> CHR '']'') (date e) \<and>
      token (method_field e) \<and> token (url e) \<and> token (protocol e) \<and>
      length (status e) = 3 \<and> list_all (\<lambda>c. c \<in> set digits) (status e) \<and>
      ((size_field e \<noteq> [] \<and> list_all (\<lambda>c. c \<in> set digits) (size_field e)) \<or> size_field e = ''-'') \<and>
      list_all (\<lambda>c. c \<noteq> DQ) (referrer e) \<and> list_all (\<lambda>c. c \<noteq> DQ) (agent e))"

text \<open>The literal line format.\<close>

definition render :: "log_entry \<Rightarrow> string" where
  "render e =
     ip e @ '' - '' @ user e @ '' ['' @ date e @ ''] '' @
     [DQ] @ method_field e @ '' '' @ url e @ '' '' @ protocol e @ [DQ] @ '' '' @
     status e @ '' '' @ size_field e @ '' '' @
     [DQ] @ referrer e @ [DQ] @ '' '' @ [DQ] @ agent e @ [DQ]"

definition satisfies_grammar :: "string \<Rightarrow> bool" where
  "satisfies_grammar line = (\<exists>e. grammar_fields e \<and> line = render e)"

text \<open>The same, decided: the pattern matches the line from its first to its last character.\<close>

definition fullmatch :: "regex \<Rightarrow> string \<Rightarrow> bool" where
  "fullmatch r s = list_ex (\<lambda>(m, g, rest). rest = []) (rmatch r s)"

text \<open>The named groups of an entry, as the pattern captures them.\<close>

definition groups_of :: "log_entry \<Rightarrow> groups" where
  "groups_of e =
     [(''ip'', ip e), (''user'', user e), (''date'', date e), (''method'', method_field e),
      (''url'', url e), (''protocol'', protocol e), (''status'', status e),
      (''size'', size_field e), (''referrer'', referrer e), (''agent'', agent e)]"

section \<open>Orders of a table of counts\<close>

text \<open>The position at which a value is first seen in a column.\<close>

definition first_index :: "'a list \<Rightarrow> 'a \<Rightarrow> nat" where
  "first_index xs k = length (takeWhile (\<lambda>y. y \<noteq> k) xs)"

text \<open>Larger counts first; equal counts in the order in which their values were first seen.\<close>

definition ranked_first_seen :: "'a list \<Rightarrow> ('a \<times> nat) list \<Rightarrow> bool" where
  "ranked_first_seen xs kc =
     sorted_wrt (\<lambda>a b. snd b < snd a \<or> (snd a = snd b \<and> first_index xs (fst a) < first_index xs (fst b))) kc"

text \<open>The number a status code denotes.\<close>

definition digit_value :: "char \<Rightarrow> nat" where
  "digit_value c = of_char c - 48"

definition code_value :: "string \<Rightarrow> nat" where
  "code_value s = foldl (\<lambda>n c. 10 * n + digit_value c) 0 s"

text \<open>Larger counts first; equal counts by ascending status code.\<close>

definition ranked_code_ascending :: "(string \<times> nat) list \<Rightarrow> bool" where
  "ranked_code_ascending kc =
     sorted_wrt (\<lambda>a b. snd b < snd a \<or> (snd a = snd b \<and> code_value (fst a) < code_value (fst b))) kc"

text \<open>A table that ranks every value of a column, with the number of its occurrences.\<close>

definition ranking_of :: "'a list \<Rightarrow> ('a \<times> nat) list \<Rightarrow> bool" where
  "ranking_of xs kc =
     (distinct (map fst kc) \<and> set (map fst kc) = set xs \<and>
      map snd kc = map (count_list xs) (map fst kc) \<and> ranked_first_seen xs kc)"

text \<open>
  The same without a rule for equal counts: every value of the column once, with the
  number of its occurrences, larger counts first.
\<close>

definition descending_ranking :: "'a list \<Rightarrow> ('a \<times> nat) list \<Rightarrow> bool" where
  "descending_ranking xs kc =
     (distinct (map fst kc) \<and> set (map fst kc) = set xs \<and>
      map snd kc = map (count_list xs) (map fst kc) \<and>
      sorted_wrt (\<lambda>a b. snd b \<le> snd a) kc)"

text \<open>The count a view reports for a status code.\<close>

definition anomaly_count :: "dataframe \<Rightarrow> string \<Rightarrow> pyval option" where
  "anomaly_count df code =
     (case pyget (detect_anomalies df) ''5xx_errors'' of
        Some d \<Rightarrow> pyget d code
      | None \<Rightarrow> None)"

definition summary_count :: "dataframe \<Rightarrow> string \<Rightarrow> pyval option" where
  "summary_count df code =
     (case pyget (generate_summary df) ''status_counts'' of
        Some d \<Rightarrow> pyget d code
      | None \<Rightarrow> None)"

section \<open>Sample lines\<close>

definition entry_a :: log_entry where
  "entry_a = \<lparr> ip = ''1.1.1.1'', user = ''-'', date = ''d'', method_field = ''GET'', url = ''/a'',
               protocol = ''HTTP/1.1'', status = ''200'', size_field = ''10'',
               referrer = ''-'', agent = ''-'' \<rparr>"

definition entry_b :: log_entry where
  "entry_b = \<lparr> ip = ''1.1.1.1'', user = ''-'', date = ''d'', method_field = ''GET'', url = ''/b'',
               protocol = ''HTTP/1.1'', status = ''500'', size_field = ''0'',
               referrer = ''-'', agent = ''-'' \<rparr>"

definition line_a :: string where
  "line_a = ''1.1.1.1 - - [d] '' @ [DQ] @ ''GET /a HTTP/1.1'' @ [DQ] @ '' 200 10 '' @
            [DQ] @ ''-'' @ [DQ] @ '' '' @ [DQ] @ ''-'' @ [DQ]"

definition line_b :: string where
  "line_b = ''1.1.1.1 - - [d] '' @ [DQ] @ ''GET /b HTTP/1.1'' @ [DQ] @ '' 500 0 '' @
            [DQ] @ ''-'' @ [DQ] @ '' '' @ [DQ] @ ''-'' @ [DQ]"

definition with_status :: "string \<Rightarrow> log_entry" where
  "with_status s = entry_a \<lparr> status := s \<rparr>"


text \<open>
  Lines that hold no conforming part: the last quote is missing, the status has four
  digits, the request has two tokens, the request has four tokens.
\<close>

definition line_missing_quote :: string where
  "line_missing_quote = ''1.1.1.1 - - [d] '' @ [DQ] @ ''GET /a HTTP/1.1'' @ [DQ] @ '' 200 10 '' @
            [DQ] @ ''-'' @ [DQ] @ '' '' @ [DQ] @ ''-''"

definition line_long_status :: string where
  "line_long_status = ''1.1.1.1 - - [d] '' @ [DQ] @ ''GET /a HTTP/1.1'' @ [DQ] @ '' 2000 10 '' @
            [DQ] @ ''-'' @ [DQ] @ '' '' @ [DQ] @ ''-'' @ [DQ]"

definition line_two_tokens :: string where
  "line_two_tokens = ''1.1.1.1 - - [d] '' @ [DQ] @ ''GET /a'' @ [DQ] @ '' 200 10 '' @
            [DQ] @ ''-'' @ [DQ] @ '' '' @ [DQ] @ ''-'' @ [DQ]"

definition line_four_tokens :: string where
  "line_four_tokens = ''1.1.1.1 - - [d] '' @ [DQ] @ ''GET /a b HTTP/1.1'' @ [DQ] @ '' 200 10 '' @
            [DQ] @ ''-'' @ [DQ] @ '' '' @ [DQ] @ ''-'' @ [DQ]"

lemma render_entry_a: "render entry_a = line_a"
  by (simp add: render_def entry_a_def line_a_def)

section \<open>Reading the last lines\<close>

lemma slice_from_neg: "0 < limit \<Longrightarrow> slice_from (- limit) xs = drop (length xs - nat limit) xs"
proof -
  assume "0 < limit"
  then have "nat (max 0 (int (length xs) + - limit)) = length xs - nat limit"
    by (cases "nat limit \<le> length xs") auto
  then show ?thesis using \<open>0 < limit\<close> by (simp add: slice_from_def Let_def)
qed

lemma slice_from_zero: "slice_from 0 xs = xs"
  by (simp add: slice_from_def)

lemma ingest_acc: "ingest ls acc = acc @ List.map_filter parse_line ls"
  by (induction ls arbitrary: acc) (auto simp: List.map_filter_simps split: option.splits)

lemma length_map_filter_le: "length (List.map_filter f xs) \<le> length xs"
  by (simp add: List.map_filter_def)

lemma load_positive:
  assumes "0 < limit"
  shows "\<exists>tail. tail = drop (length file_lines - nat limit) file_lines \<and>
          snd (parse_nginx_logs limit (Readable file_lines)) = List.map_filter parse_line tail \<and>
          length (snd (parse_nginx_logs limit (Readable file_lines))) \<le> min (nat limit) (length file_lines)"
proof -
  let ?tail = "drop (length file_lines - nat limit) file_lines"
  have r: "snd (parse_nginx_logs limit (Readable file_lines)) = List.map_filter parse_line ?tail"
    using assms by (simp add: slice_from_neg ingest_acc)
  have "length (List.map_filter parse_line ?tail) \<le> length ?tail"
    by (rule length_map_filter_le)
  also have "\<dots> \<le> min (nat limit) (length file_lines)" by simp
  finally show ?thesis using r by simp
qed

section \<open>Counting values: the table and its order\<close>

lemma bump_in: "k \<in> fst ` set t \<Longrightarrow> map fst (bump k t) = map fst t"
  by (induction t) force+

lemma bump_notin: "k \<notin> fst ` set t \<Longrightarrow> bump k t = t @ [(k, 1)]"
  by (induction t) auto

lemma bump_counts:
  "distinct (map fst t) \<Longrightarrow> k \<in> fst ` set t \<Longrightarrow>
   bump k t = map (\<lambda>(k', c). (k', if k' = k then Suc c else c)) t"
proof (induction t)
  case Nil
  then show ?case by simp
next
  case (Cons p t)
  obtain k' c where p: "p = (k', c)" by (cases p)
  show ?case
  proof (cases "k' = k")
    case True
    then have "\<forall>q\<in>set t. fst q \<noteq> k" using Cons.prems p by auto
    then have "map (\<lambda>(k', c). (k', if k' = k then Suc c else c)) t = t"
      by (intro map_idI) auto
    then show ?thesis using True p by simp
  next
    case False
    then have "k \<in> fst ` set t" using Cons.prems p by auto
    then show ?thesis using Cons False p by simp
  qed
qed

lemma count_values_snoc: "count_values (xs @ [x]) = bump x (count_values xs)"
  by (simp add: count_values_def)

lemma count_values_keys:
  "distinct (map fst (count_values xs)) \<and> set (map fst (count_values xs)) = set xs"
proof (induction xs rule: rev_induct)
  case Nil
  then show ?case by (simp add: count_values_def)
next
  case (snoc x xs)
  show ?case
  proof (cases "x \<in> fst ` set (count_values xs)")
    case True
    then show ?thesis using snoc by (auto simp: count_values_snoc bump_in)
  next
    case False
    then show ?thesis using snoc by (auto simp: count_values_snoc bump_notin)
  qed
qed

lemma count_values_count:
  "(k, c) \<in> set (count_values xs) \<Longrightarrow> c = count_list xs k"
proof (induction xs arbitrary: k c rule: rev_induct)
  case Nil
  then show ?case by (simp add: count_values_def)
next
  case (snoc x xs)
  have d: "distinct (map fst (count_values xs))"
    using count_values_keys[of xs] by simp
  have s: "set (map fst (count_values xs)) = set xs"
    using count_values_keys[of xs] by simp
  have mem: "(k, c) \<in> set (bump x (count_values xs))"
    using snoc.prems by (simp add: count_values_snoc)
  show ?case
  proof (cases "x \<in> fst ` set (count_values xs)")
    case True
    have "bump x (count_values xs) = map (\<lambda>(k', c). (k', if k' = x then Suc c else c)) (count_values xs)"
      using d True by (rule bump_counts)
    then obtain c0 where c0: "(k, c0) \<in> set (count_values xs)" and c: "c = (if k = x then Suc c0 else c0)"
      using mem by auto
    have "c0 = count_list xs k" using c0 by (rule snoc.IH)
    then show ?thesis using c by simp
  next
    case False
    then have "x \<notin> set xs" using s by simp
    then have z: "count_list xs x = 0" by (simp add: count_list_0_iff)
    have "(k, c) \<in> set (count_values xs) \<or> (k, c) = (x, 1)"
      using mem False by (auto simp: bump_notin)
    then show ?thesis
    proof
      assume m: "(k, c) \<in> set (count_values xs)"
      then have "k \<noteq> x" using False by force
      moreover have "c = count_list xs k" using m by (rule snoc.IH)
      ultimately show ?thesis by simp
    next
      assume "(k, c) = (x, 1)"
      then show ?thesis using z by simp
    qed
  qed
qed

lemma first_index_snoc_in: "k \<in> set xs \<Longrightarrow> first_index (xs @ [x]) k = first_index xs k"
  unfolding first_index_def by (induction xs) auto

lemma first_index_lt: "k \<in> set xs \<Longrightarrow> first_index xs k < length xs"
  unfolding first_index_def by (induction xs) auto

lemma first_index_notin: "k \<notin> set xs \<Longrightarrow> first_index (xs @ [k]) k = length xs"
  unfolding first_index_def by (induction xs) auto

lemma count_values_order:
  "sorted_wrt (\<lambda>a b. first_index xs (fst a) < first_index xs (fst b)) (count_values xs)"
proof (induction xs rule: rev_induct)
  case Nil
  then show ?case by (simp add: count_values_def)
next
  case (snoc x xs)
  have d: "distinct (map fst (count_values xs))"
    using count_values_keys[of xs] by simp
  have s: "set (map fst (count_values xs)) = set xs"
    using count_values_keys[of xs] by simp
  have key: "fst a \<in> set xs" if "a \<in> set (count_values xs)" for a
  proof -
    have "fst a \<in> set (map fst (count_values xs))" using that by simp
    then show ?thesis by (simp only: s)
  qed
  have mono: "sorted_wrt (\<lambda>a b. first_index (xs @ [x]) (fst a) < first_index (xs @ [x]) (fst b)) (count_values xs)"
  proof (rule sorted_wrt_mono_rel[OF _ snoc.IH])
    fix a b assume "a \<in> set (count_values xs)" "b \<in> set (count_values xs)"
      and lt: "first_index xs (fst a) < first_index xs (fst b)"
    then have "fst a \<in> set xs" "fst b \<in> set xs" by (simp_all add: key)
    then show "first_index (xs @ [x]) (fst a) < first_index (xs @ [x]) (fst b)"
      using lt by (simp add: first_index_snoc_in)
  qed
  show ?case
  proof (cases "x \<in> fst ` set (count_values xs)")
    case True
    have "bump x (count_values xs) = map (\<lambda>(k', c). (k', if k' = x then Suc c else c)) (count_values xs)"
      using d True by (rule bump_counts)
    then show ?thesis using mono
      by (simp add: count_values_snoc sorted_wrt_map case_prod_beta)
  next
    case False
    then have nx: "x \<notin> set xs" using s by simp
    have "first_index (xs @ [x]) (fst a) < first_index (xs @ [x]) x"
      if "a \<in> set (count_values xs)" for a
      using key[OF that] nx by (simp add: first_index_snoc_in first_index_notin first_index_lt)
    then show ?thesis using mono False
      by (simp add: count_values_snoc bump_notin sorted_wrt_append)
  qed
qed

lemma set_insert_desc: "set (insert_desc x ys) = insert x (set ys)"
  by (induction ys) auto

lemma set_sort_desc: "set (sort_desc t) = set t"
  unfolding sort_desc_def by (induction t) (auto simp: set_insert_desc)

lemma distinct_insert_desc:
  "distinct (map fst (insert_desc x ys)) \<longleftrightarrow> fst x \<notin> fst ` set ys \<and> distinct (map fst ys)"
  by (induction ys) (auto simp: set_insert_desc)

lemma distinct_sort_desc: "distinct (map fst (sort_desc t)) \<longleftrightarrow> distinct (map fst t)"
  unfolding sort_desc_def
  by (induction t) (auto simp: distinct_insert_desc set_sort_desc[unfolded sort_desc_def])

lemma insert_desc_sorted:
  assumes "sorted_wrt (\<lambda>a b. snd b < snd a \<or> (snd a = snd b \<and> R a b)) ys"
    and "\<forall>b\<in>set ys. R x b"
  shows "sorted_wrt (\<lambda>a b. snd b < snd a \<or> (snd a = snd b \<and> R a b)) (insert_desc x ys)"
  using assms
proof (induction ys)
  case Nil
  then show ?case by simp
next
  case (Cons y ys)
  then show ?case by (auto simp: set_insert_desc) 
qed

lemma sort_desc_sorted:
  "sorted_wrt R t \<Longrightarrow> sorted_wrt (\<lambda>a b. snd b < snd a \<or> (snd a = snd b \<and> R a b)) (sort_desc t)"
  unfolding sort_desc_def
  by (induction t) (auto intro!: insert_desc_sorted simp: set_sort_desc[unfolded sort_desc_def])

lemma value_counts_unfold: "value_counts xs = sort_desc (count_values xs)"
  by (simp add: value_counts_def value_counts_by_def)

lemma generate_summary_unfold:
  "generate_summary df = PDict
     [(''total_requests'', PInt (length df)),
      (''status_counts'', to_dict (value_counts (map status df))),
      (''top_ips'', to_dict (take 3 (value_counts (map ip df)))),
      (''top_urls'', to_dict (take 3 (value_counts (map url df))))]"
  by (simp add: generate_summary_def generate_summary_by_def value_counts_def)

lemma detect_anomalies_unfold:
  "detect_anomalies df =
     (let error_counts =
            value_counts (map status (filter (\<lambda>row. py_startswith (status row) ''5'') df))
      in if error_counts \<noteq> [] then PDict [(''5xx_errors'', to_dict error_counts)]
         else PDict [])"
  by (simp add: detect_anomalies_def detect_anomalies_by_def value_counts_def)

lemma value_counts_ranking: "ranking_of xs (value_counts xs)"
proof -
  have "\<forall>p\<in>set (value_counts xs). snd p = count_list xs (fst p)"
    using count_values_count[of _ _ xs] by (auto simp: value_counts_unfold set_sort_desc)
  then have "map snd (value_counts xs) = map (count_list xs) (map fst (value_counts xs))"
    by simp
  moreover have "ranked_first_seen xs (value_counts xs)"
    unfolding ranked_first_seen_def value_counts_unfold
    by (rule sort_desc_sorted[OF count_values_order])
  moreover have "set (map fst (value_counts xs)) = set xs"
    using count_values_keys[of xs] by (simp add: value_counts_unfold set_sort_desc)
  ultimately show ?thesis
    using count_values_keys[of xs]
    by (simp add: ranking_of_def value_counts_unfold distinct_sort_desc)
qed

section \<open>Counting values under any descending sort\<close>

lemma length_insert_desc: "length (insert_desc x ys) = Suc (length ys)"
  by (induction ys) auto

lemma length_sort_desc: "length (sort_desc t) = length t"
  unfolding sort_desc_def by (induction t) (auto simp: length_insert_desc)

lemma sort_desc_descending: "sorted_wrt (\<lambda>a b. snd b \<le> snd a) (sort_desc t)"
proof -
  have "sorted_wrt (\<lambda>a b. True) t" by (induction t) auto
  then have "sorted_wrt (\<lambda>a b. snd b < snd a \<or> (snd a = snd b \<and> True)) (sort_desc t)"
    by (rule sort_desc_sorted)
  then show ?thesis
    by (rule sorted_wrt_mono_rel[rotated]) auto
qed

lemma descending_sort_sort_desc: "descending_sort sort_desc"
  by (simp add: descending_sort_def set_sort_desc length_sort_desc sort_desc_descending)


lemma value_counts_by_ranking:
  assumes "descending_sort sort_values"
  shows "descending_ranking xs (value_counts_by sort_values xs)"
proof -
  let ?t = "count_values xs"
  let ?kc = "sort_values ?t"
  have s: "set ?kc = set ?t" and l: "length ?kc = length ?t"
    and o: "sorted_wrt (\<lambda>a b. snd b \<le> snd a) ?kc"
    using assms by (simp_all add: descending_sort_def)
  have d: "distinct (map fst ?t)" and k: "set (map fst ?t) = set xs"
    using count_values_keys[of xs] by simp_all
  have keys: "set (map fst ?kc) = set xs"
    using s k by simp
  have "card (set (map fst ?kc)) = length (map fst ?kc)"
  proof -
    have "card (set (map fst ?kc)) = card (set (map fst ?t))" using s by simp
    also have "\<dots> = length (map fst ?t)" using d by (rule distinct_card)
    also have "\<dots> = length (map fst ?kc)" using l by simp
    finally show ?thesis .
  qed
  then have dist: "distinct (map fst ?kc)" by (rule card_distinct)
  have "\<forall>p\<in>set ?kc. snd p = count_list xs (fst p)"
    using count_values_count[of _ _ xs] s by auto
  then have cnt: "map snd ?kc = map (count_list xs) (map fst ?kc)"
    by simp
  show ?thesis
    using dist keys cnt o by (simp add: descending_ranking_def value_counts_by_def)
qed

section \<open>Substrings\<close>

lemma py_in_iff: "py_in w s \<longleftrightarrow> (\<exists>pre post. s = pre @ w @ post)"
proof (induction s)
  case Nil
  then show ?case by auto
next
  case (Cons c s)
  show ?case
  proof
    assume "py_in w (c # s)"
    then consider "take (length w) (c # s) = w" | "py_in w s" by auto
    then show "\<exists>pre post. c # s = pre @ w @ post"
    proof cases
      case 1
      then have "c # s = [] @ w @ drop (length w) (c # s)"
        by (metis append_Nil append_take_drop_id)
      then show ?thesis by blast
    next
      case 2
      then obtain pre post where "s = pre @ w @ post" using Cons.IH by blast
      then have "c # s = (c # pre) @ w @ post" by simp
      then show ?thesis by blast
    qed
  next
    assume "\<exists>pre post. c # s = pre @ w @ post"
    then obtain pre post where e: "c # s = pre @ w @ post" by blast
    show "py_in w (c # s)"
    proof (cases pre)
      case Nil
      then have "take (length w) (c # s) = w" using e by simp
      then show ?thesis by simp
    next
      case (Cons a pre')
      then have "s = pre' @ w @ post" using e by simp
      then have "py_in w s" using Cons.IH by blast
      then show ?thesis by simp
    qed
  qed
qed

section \<open>Looking a value up in a table of counts\<close>

lemma map_of_counts:
  assumes "ranking_of xs kc"
  shows "map_of (map (\<lambda>(k, c). (k, PInt c)) kc) k =
         (if k \<in> set xs then Some (PInt (count_list xs k)) else None)"
proof -
  have keys: "set (map fst kc) = set xs"
    and cnt: "map snd kc = map (count_list xs) (map fst kc)"
    using assms by (simp_all add: ranking_of_def)
  have each: "snd p = count_list xs (fst p)" if "p \<in> set kc" for p
  proof -
    have "\<forall>p\<in>set kc. snd p = count_list xs (fst p)"
      using cnt by (simp add: map_eq_conv)
    then show ?thesis using that by blast
  qed
  show ?thesis
  proof (cases "k \<in> set xs")
    case True
    then have "k \<in> fst ` set kc" using keys by simp
    then obtain c where m: "(k, c) \<in> set kc" by force
    then have "c = count_list xs k" using each[of "(k, c)"] by simp
    moreover have "distinct (map fst (map (\<lambda>(k, c). (k, PInt c)) kc))"
      using assms by (simp add: ranking_of_def comp_def case_prod_beta)
    moreover have "(k, PInt c) \<in> set (map (\<lambda>(k, c). (k, PInt c)) kc)"
      using m by force
    ultimately show ?thesis using True by simp
  next
    case False
    then have "k \<notin> fst ` set kc" using keys by simp
    then have "k \<notin> fst ` set (map (\<lambda>(k, c). (k, PInt c)) kc)"
      by (simp add: image_image case_prod_beta)
    then show ?thesis using False by (simp add: map_of_eq_None_iff)
  qed
qed

lemma to_dict_inject: "to_dict kc = to_dict kc' \<Longrightarrow> kc = kc'"
proof -
  assume "to_dict kc = to_dict kc'"
  then have "map (\<lambda>(k, c). (k, PInt c)) kc = map (\<lambda>(k, c). (k, PInt c)) kc'"
    by (simp add: to_dict_def)
  moreover have "inj (\<lambda>(k :: string, c). (k, PInt c))"
    by (auto simp: inj_on_def)
  ultimately show ?thesis by (simp add: inj_map_eq_map)
qed

lemma status_of_filter:
  "map status (filter (\<lambda>row. py_startswith (status row) p) df) =
   filter (\<lambda>s. py_startswith s p) (map status df)"
  by (simp add: filter_map comp_def)

lemma count_list_filter:
  "P k \<Longrightarrow> count_list (filter P xs) k = count_list xs k"
  by (induction xs) auto

section \<open>The matcher against the grammar\<close>

lemma in_splits: "(a, b) \<in> set (splits cs s) \<longleftrightarrow> s = a @ b \<and> list_all (in_class cs) a"
proof (induction s arbitrary: a b)
  case Nil
  then show ?case by auto
next
  case (Cons c s)
  have img: "(a, b) \<in> (\<lambda>(a, b). (c # a, b)) ` set (splits cs s) \<longleftrightarrow>
             (\<exists>a'. a = c # a' \<and> (a', b) \<in> set (splits cs s))"
    by force
  show ?case
  proof (cases a)
    case Nil
    then show ?thesis by (auto simp: img)
  next
    case (Cons a0 a')
    have "(a0 # a', b) \<in> set (splits cs (c # s)) \<longleftrightarrow>
          in_class cs c \<and> a0 = c \<and> (a', b) \<in> set (splits cs s)"
      using img Cons by auto
    also have "\<dots> \<longleftrightarrow> c # s = (a0 # a') @ b \<and> list_all (in_class cs) (a0 # a')"
      unfolding Cons.IH by auto
    finally show ?thesis using Cons by simp
  qed
qed

lemma in_rmatch_Lit:
  "(m, g, rest) \<in> set (rmatch (Lit l) s) \<longleftrightarrow> s = l @ rest \<and> m = l \<and> g = []"
proof -
  have "take (length l) s = l \<and> rest = drop (length l) s \<longleftrightarrow> s = l @ rest"
    by (metis append_eq_conv_conj)
  then show ?thesis by auto
qed

lemma in_rmatch_Many:
  "(m, g, rest) \<in> set (rmatch (Many cs) s) \<longleftrightarrow>
     s = m @ rest \<and> g = [] \<and> list_all (in_class cs) m"
proof -
  have "(m, g, rest) \<in> set (rmatch (Many cs) s) \<longleftrightarrow> g = [] \<and> (m, rest) \<in> set (splits cs s)"
    by force
  then show ?thesis by (auto simp: in_splits)
qed

lemma in_rmatch_Many1:
  "(m, g, rest) \<in> set (rmatch (Many1 cs) s) \<longleftrightarrow>
     s = m @ rest \<and> g = [] \<and> m \<noteq> [] \<and> list_all (in_class cs) m"
proof -
  have "(m, g, rest) \<in> set (rmatch (Many1 cs) s) \<longleftrightarrow>
        g = [] \<and> m \<noteq> [] \<and> (m, rest) \<in> set (splits cs s)"
    by force
  then show ?thesis by (auto simp: in_splits)
qed

lemma in_rmatch_Exactly:
  "(m, g, rest) \<in> set (rmatch (Exactly n cs) s) \<longleftrightarrow>
     s = m @ rest \<and> g = [] \<and> length m = n \<and> list_all (in_class cs) m"
proof -
  have "n \<le> length s \<and> m = take n s \<and> rest = drop n s \<longleftrightarrow> s = m @ rest \<and> length m = n"
  proof
    assume "n \<le> length s \<and> m = take n s \<and> rest = drop n s"
    then show "s = m @ rest \<and> length m = n" by simp
  next
    assume "s = m @ rest \<and> length m = n"
    then show "n \<le> length s \<and> m = take n s \<and> rest = drop n s" by auto
  qed
  then show ?thesis by auto
qed

lemma in_rmatch_Group:
  "(m, g, rest) \<in> set (rmatch (Group name r) s) \<longleftrightarrow>
     (\<exists>g'. g = (name, m) # g' \<and> (m, g', rest) \<in> set (rmatch r s))"
proof -
  have "(m, g, rest) \<in> set (rmatch (Group name r) s) \<longleftrightarrow>
        (\<exists>x\<in>set (rmatch r s). (m, g, rest) = (fst x, (name, fst x) # fst (snd x), snd (snd x)))"
    by (simp add: image_iff case_prod_beta)
  also have "\<dots> \<longleftrightarrow> (\<exists>g'. g = (name, m) # g' \<and> (m, g', rest) \<in> set (rmatch r s))"
  proof
    assume "\<exists>x\<in>set (rmatch r s). (m, g, rest) = (fst x, (name, fst x) # fst (snd x), snd (snd x))"
    then obtain x where x: "x \<in> set (rmatch r s)"
      and e: "(m, g, rest) = (fst x, (name, fst x) # fst (snd x), snd (snd x))" by blast
    have "x = (m, fst (snd x), rest)" using e by (cases x) simp
    then have "(m, fst (snd x), rest) \<in> set (rmatch r s)" using x by simp
    then show "\<exists>g'. g = (name, m) # g' \<and> (m, g', rest) \<in> set (rmatch r s)"
      using e by auto
  next
    assume "\<exists>g'. g = (name, m) # g' \<and> (m, g', rest) \<in> set (rmatch r s)"
    then obtain g' where "g = (name, m) # g'" "(m, g', rest) \<in> set (rmatch r s)" by blast
    then show "\<exists>x\<in>set (rmatch r s). (m, g, rest) = (fst x, (name, fst x) # fst (snd x), snd (snd x))"
      by (intro bexI[of _ "(m, g', rest)"]) simp_all
  qed
  finally show ?thesis .
qed

lemma in_rmatch_seq_Nil:
  "(m, g, rest) \<in> set (rmatch_seq [] s) \<longleftrightarrow> m = [] \<and> g = [] \<and> rest = s"
  by auto

lemma in_rmatch_seq_Cons:
  "(m, g, rest) \<in> set (rmatch_seq (r # rs) s) \<longleftrightarrow>
     (\<exists>m1 g1 s1 m2 g2. (m1, g1, s1) \<in> set (rmatch r s) \<and>
        (m2, g2, rest) \<in> set (rmatch_seq rs s1) \<and> m = m1 @ m2 \<and> g = g1 @ g2)"
proof
  let ?F = "\<lambda>(m1, g1, s1). map (\<lambda>(m2, g2, s2). (m1 @ m2, g1 @ g2, s2)) (rmatch_seq rs s1)"
  assume "(m, g, rest) \<in> set (rmatch_seq (r # rs) s)"
  then have "(m, g, rest) \<in> (\<Union>x\<in>set (rmatch r s). set (?F x))"
    by simp
  then obtain x where x: "x \<in> set (rmatch r s)" and y: "(m, g, rest) \<in> set (?F x)"
    by blast
  obtain m1 g1 s1 where x3: "x = (m1, g1, s1)" by (cases x) auto
  have "(m, g, rest) \<in> (\<lambda>(m2, g2, s2). (m1 @ m2, g1 @ g2, s2)) ` set (rmatch_seq rs s1)"
    using y x3 by simp
  then obtain z where z: "z \<in> set (rmatch_seq rs s1)"
    and e: "(m, g, rest) = (\<lambda>(m2, g2, s2). (m1 @ m2, g1 @ g2, s2)) z"
    by blast
  obtain m2 g2 s2 where z3: "z = (m2, g2, s2)" by (cases z) auto
  have "(m1, g1, s1) \<in> set (rmatch r s)" using x x3 by simp
  moreover have "(m2, g2, rest) \<in> set (rmatch_seq rs s1)" using z z3 e by simp
  moreover have "m = m1 @ m2" "g = g1 @ g2" using e z3 by simp_all
  ultimately show "\<exists>m1 g1 s1 m2 g2. (m1, g1, s1) \<in> set (rmatch r s) \<and>
        (m2, g2, rest) \<in> set (rmatch_seq rs s1) \<and> m = m1 @ m2 \<and> g = g1 @ g2"
    by blast
next
  let ?F = "\<lambda>(m1, g1, s1). map (\<lambda>(m2, g2, s2). (m1 @ m2, g1 @ g2, s2)) (rmatch_seq rs s1)"
  assume "\<exists>m1 g1 s1 m2 g2. (m1, g1, s1) \<in> set (rmatch r s) \<and>
        (m2, g2, rest) \<in> set (rmatch_seq rs s1) \<and> m = m1 @ m2 \<and> g = g1 @ g2"
  then obtain m1 g1 s1 m2 g2 where a: "(m1, g1, s1) \<in> set (rmatch r s)"
    and b: "(m2, g2, rest) \<in> set (rmatch_seq rs s1)" and e: "m = m1 @ m2" "g = g1 @ g2"
    by blast
  have "(m1 @ m2, g1 @ g2, rest) \<in> (\<lambda>(m2, g2, s2). (m1 @ m2, g1 @ g2, s2)) ` set (rmatch_seq rs s1)"
    using b by (rule rev_image_eqI) simp
  then have "(m, g, rest) \<in> set (?F (m1, g1, s1))"
    using e by simp
  then have "(m, g, rest) \<in> (\<Union>x\<in>set (rmatch r s). set (?F x))"
    using a by (rule UN_I[rotated])
  then show "(m, g, rest) \<in> set (rmatch_seq (r # rs) s)"
    by simp
qed

lemmas in_rmatch = in_rmatch_Lit in_rmatch_Many1 in_rmatch_Many in_rmatch_Exactly
  in_rmatch_Group in_rmatch_seq_Nil in_rmatch_seq_Cons

lemma in_rmatch_Alt:
  "x \<in> set (rmatch (Alt r1 r2) s) \<longleftrightarrow> x \<in> set (rmatch r1 s) \<or> x \<in> set (rmatch r2 s)"
  by simp

lemma in_rmatch_Cat: "x \<in> set (rmatch (Cat rs) s) \<longleftrightarrow> x \<in> set (rmatch_seq rs s)"
  by simp

lemma list_all_in_class:
  "list_all (in_class NonSpace) t = list_all (\<lambda>c. c \<notin> set whitespace) t"
  "list_all (in_class Digit) t = list_all (\<lambda>c. c \<in> set digits) t"
  "list_all (in_class (NoneOf [x])) t = list_all (\<lambda>c. c \<noteq> x) t"
  by (simp_all add: list_all_iff)

lemma rmatch_LOG_sound:
  assumes "x \<in> set (rmatch LOG_PATTERN s)"
  shows "grammar_fields (groupdict x) \<and> fst x = render (groupdict x) \<and>
         fst (snd x) = groups_of (groupdict x) \<and> s = fst x @ snd (snd x)"
proof -
  obtain m g rest where x: "x = (m, g, rest)" by (cases x) auto
  have "(m, g, rest) \<in> set (rmatch LOG_PATTERN s)" using assms x by simp
  then show ?thesis
    unfolding x LOG_PATTERN_def in_rmatch_Cat
    apply (simp only: in_rmatch in_rmatch_Alt)
    apply (elim exE conjE disjE)
     apply (simp_all add: groupdict_def group_def grammar_fields_def render_def groups_of_def
        token_def list_all_in_class)
    done
qed

lemma seq_GroupI:
  assumes "(m1, [], s1) \<in> set (rmatch r s)" and "(m2, g2, rest) \<in> set (rmatch_seq rs s1)"
  shows "(m1 @ m2, (n, m1) # g2, rest) \<in> set (rmatch_seq (Group n r # rs) s)"
proof -
  have "(m1, [(n, m1)], s1) \<in> set (rmatch (Group n r) s)"
    using assms(1) by (simp only: in_rmatch_Group) blast
  then show ?thesis
    using assms(2) by (simp only: in_rmatch_seq_Cons) (metis append_Cons append_Nil)
qed

lemma seq_LitI:
  assumes "(m2, g, rest) \<in> set (rmatch_seq rs s1)"
  shows "(l @ m2, g, rest) \<in> set (rmatch_seq (Lit l # rs) (l @ s1))"
proof -
  have "(l, [], s1) \<in> set (rmatch (Lit l) (l @ s1))"
    by (simp del: rmatch.simps add: in_rmatch_Lit)
  then show ?thesis
    using assms by (simp only: in_rmatch_seq_Cons) (metis append_Nil)
qed

lemma seq_Lit_lastI: "(l, [], rest) \<in> set (rmatch_seq [Lit l] (l @ rest))"
  using seq_LitI[of "[]" "[]" rest "[]" rest l] by simp

lemma Many1I:
  "m \<noteq> [] \<Longrightarrow> list_all (in_class cs) m \<Longrightarrow> (m, [], rest) \<in> set (rmatch (Many1 cs) (m @ rest))"
  by (simp del: rmatch.simps add: in_rmatch_Many1)

lemma ManyI:
  "list_all (in_class cs) m \<Longrightarrow> (m, [], rest) \<in> set (rmatch (Many cs) (m @ rest))"
  by (simp del: rmatch.simps add: in_rmatch_Many)

lemma ExactlyI:
  "length m = n \<Longrightarrow> list_all (in_class cs) m \<Longrightarrow>
   (m, [], rest) \<in> set (rmatch (Exactly n cs) (m @ rest))"
  by (simp del: rmatch.simps add: in_rmatch_Exactly)

lemma Alt_Many1_LitI:
  assumes "(m \<noteq> [] \<and> list_all (in_class cs) m) \<or> m = l"
  shows "(m, [], rest) \<in> set (rmatch (Alt (Many1 cs) (Lit l)) (m @ rest))"
  using assms
proof
  assume "m \<noteq> [] \<and> list_all (in_class cs) m"
  then have "(m, [], rest) \<in> set (rmatch (Many1 cs) (m @ rest))"
    by (intro Many1I) simp_all
  then show ?thesis by (simp del: rmatch.simps add: in_rmatch_Alt)
next
  assume "m = l"
  then have "(m, [], rest) \<in> set (rmatch (Lit l) (m @ rest))" by (simp del: rmatch.simps add: in_rmatch_Lit)
  then show ?thesis by (simp del: rmatch.simps add: in_rmatch_Alt)
qed

lemma rmatch_LOG_complete:
  assumes "grammar_fields e"
  shows "(render e, groups_of e, rest) \<in> set (rmatch LOG_PATTERN (render e @ rest))"
proof -
  have f: "ip e \<noteq> []" "list_all (in_class NonSpace) (ip e)"
    "user e \<noteq> []" "list_all (in_class NonSpace) (user e)"
    "date e \<noteq> []" "list_all (in_class (NoneOf '']'')) (date e)"
    "method_field e \<noteq> []" "list_all (in_class NonSpace) (method_field e)"
    "url e \<noteq> []" "list_all (in_class NonSpace) (url e)"
    "protocol e \<noteq> []" "list_all (in_class NonSpace) (protocol e)"
    "length (status e) = 3" "list_all (in_class Digit) (status e)"
    "(size_field e \<noteq> [] \<and> list_all (in_class Digit) (size_field e)) \<or> size_field e = ''-''"
    "list_all (in_class (NoneOf [DQ])) (referrer e)"
    "list_all (in_class (NoneOf [DQ])) (agent e)"
    using assms by (simp_all add: grammar_fields_def token_def list_all_in_class)
  show ?thesis
    unfolding LOG_PATTERN_def render_def groups_of_def rmatch.simps(7) append_assoc
    by (rule seq_GroupI seq_LitI seq_Lit_lastI Many1I ManyI ExactlyI Alt_Many1_LitI f)+
qed

lemma tok_eq:
  assumes "list_all (\<lambda>c. \<not> P c) a" "list_all (\<lambda>c. \<not> P c) a'" "P d"
    and "a @ d # x = a' @ d # x'"
  shows "a = a' \<and> x = x'"
  using assms
proof (induction a arbitrary: a')
  case Nil
  then show ?case by (cases a') auto
next
  case (Cons c as)
  then show ?case by (cases a') auto
qed

lemma space_ws: "CHR '' '' \<in> set whitespace"
  by (simp add: whitespace_def)

lemma DQ_not_ws: "DQ \<notin> set whitespace"
  by (simp add: whitespace_def DQ_def)

lemma digit_not_ws: "c \<in> set digits \<Longrightarrow> c \<notin> set whitespace"
  by (auto simp: whitespace_def digits_def)

lemma size_not_ws:
  assumes "(t \<noteq> [] \<and> list_all (\<lambda>c. c \<in> set digits) t) \<or> t = ''-''"
  shows "list_all (\<lambda>c. \<not> c \<in> set whitespace) t"
  using assms
proof
  assume "t \<noteq> [] \<and> list_all (\<lambda>c. c \<in> set digits) t"
  then show ?thesis by (auto simp: list_all_iff digit_not_ws)
next
  assume "t = ''-''"
  then show ?thesis by (simp add: whitespace_def)
qed

lemma render_unique:
  assumes g: "grammar_fields e" and g': "grammar_fields e'"
    and eq: "render e @ rest = render e' @ rest'"
  shows "e = e' \<and> rest = rest'"
proof -
  let ?ws = "\<lambda>c. c \<in> set whitespace"
  let ?r10 = "\<lambda>e rest. agent e @ DQ # rest"
  let ?r9 = "\<lambda>e rest. referrer e @ DQ # CHR '' '' # DQ # ?r10 e rest"
  let ?r8 = "\<lambda>e rest. size_field e @ CHR '' '' # DQ # ?r9 e rest"
  let ?r7 = "\<lambda>e rest. status e @ CHR '' '' # ?r8 e rest"
  let ?r6 = "\<lambda>e rest. (protocol e @ [DQ]) @ CHR '' '' # ?r7 e rest"
  let ?r5 = "\<lambda>e rest. url e @ CHR '' '' # ?r6 e rest"
  let ?r4 = "\<lambda>e rest. method_field e @ CHR '' '' # ?r5 e rest"
  let ?r3 = "\<lambda>e rest. date e @ CHR '']'' # CHR '' '' # DQ # ?r4 e rest"
  let ?r2 = "\<lambda>e rest. user e @ CHR '' '' # CHR ''['' # ?r3 e rest"
  let ?r1 = "\<lambda>e rest. ip e @ CHR '' '' # CHR ''-'' # CHR '' '' # ?r2 e rest"
  have t: "list_all (\<lambda>c. \<not> ?ws c) (ip e)" "list_all (\<lambda>c. \<not> ?ws c) (user e)"
    "list_all (\<lambda>c. \<not> ?ws c) (method_field e)" "list_all (\<lambda>c. \<not> ?ws c) (url e)"
    "list_all (\<lambda>c. \<not> ?ws c) (protocol e @ [DQ])"
    "list_all (\<lambda>c. \<not> ?ws c) (size_field e)"
    "list_all (\<lambda>c. \<not> c = CHR '']'') (date e)"
    "list_all (\<lambda>c. \<not> c = DQ) (referrer e)" "list_all (\<lambda>c. \<not> c = DQ) (agent e)"
    "length (status e) = 3"
    using g size_not_ws[of "size_field e"] by (simp_all add: grammar_fields_def token_def DQ_not_ws)
  have t': "list_all (\<lambda>c. \<not> ?ws c) (ip e')" "list_all (\<lambda>c. \<not> ?ws c) (user e')"
    "list_all (\<lambda>c. \<not> ?ws c) (method_field e')" "list_all (\<lambda>c. \<not> ?ws c) (url e')"
    "list_all (\<lambda>c. \<not> ?ws c) (protocol e' @ [DQ])"
    "list_all (\<lambda>c. \<not> ?ws c) (size_field e')"
    "list_all (\<lambda>c. \<not> c = CHR '']'') (date e')"
    "list_all (\<lambda>c. \<not> c = DQ) (referrer e')" "list_all (\<lambda>c. \<not> c = DQ) (agent e')"
    "length (status e') = 3"
    using g' size_not_ws[of "size_field e'"] by (simp_all add: grammar_fields_def token_def DQ_not_ws)
  have rb: "(\<lambda>c. c = CHR '']'') (CHR '']'')" by simp
  have dq: "(\<lambda>c. c = DQ) DQ" by simp
  have 1: "?r1 e rest = ?r1 e' rest'"
    using eq by (simp add: render_def)
  have a1: "ip e = ip e' \<and> CHR ''-'' # CHR '' '' # ?r2 e rest = CHR ''-'' # CHR '' '' # ?r2 e' rest'"
    by (rule tok_eq[OF t(1) t'(1) space_ws 1])
  then have 2: "?r2 e rest = ?r2 e' rest'" by simp
  have a2: "user e = user e' \<and> CHR ''['' # ?r3 e rest = CHR ''['' # ?r3 e' rest'"
    by (rule tok_eq[OF t(2) t'(2) space_ws 2])
  then have 3: "?r3 e rest = ?r3 e' rest'" by simp
  have a3: "date e = date e' \<and> CHR '' '' # DQ # ?r4 e rest = CHR '' '' # DQ # ?r4 e' rest'"
    by (rule tok_eq[OF t(7) t'(7) rb 3])
  then have 4: "?r4 e rest = ?r4 e' rest'" by simp
  have a4: "method_field e = method_field e' \<and> ?r5 e rest = ?r5 e' rest'"
    by (rule tok_eq[OF t(3) t'(3) space_ws 4])
  then have 5: "?r5 e rest = ?r5 e' rest'" by simp
  have a5: "url e = url e' \<and> ?r6 e rest = ?r6 e' rest'"
    by (rule tok_eq[OF t(4) t'(4) space_ws 5])
  then have 6: "?r6 e rest = ?r6 e' rest'" by simp
  have a6: "protocol e @ [DQ] = protocol e' @ [DQ] \<and> ?r7 e rest = ?r7 e' rest'"
    by (rule tok_eq[OF t(5) t'(5) space_ws 6])
  then have 7: "?r7 e rest = ?r7 e' rest'" by simp
  have a7: "status e = status e' \<and> CHR '' '' # ?r8 e rest = CHR '' '' # ?r8 e' rest'"
    using 7 t(10) t'(10) by (simp add: append_eq_append_conv)
  then have 8: "?r8 e rest = ?r8 e' rest'" by simp
  have a8: "size_field e = size_field e' \<and> DQ # ?r9 e rest = DQ # ?r9 e' rest'"
    by (rule tok_eq[OF t(6) t'(6) space_ws 8])
  then have 9: "?r9 e rest = ?r9 e' rest'" by simp
  have a9: "referrer e = referrer e' \<and> CHR '' '' # DQ # ?r10 e rest = CHR '' '' # DQ # ?r10 e' rest'"
    by (rule tok_eq[OF t(8) t'(8) dq 9])
  then have 10: "?r10 e rest = ?r10 e' rest'" by simp
  have a10: "agent e = agent e' \<and> rest = rest'"
    by (rule tok_eq[OF t(9) t'(9) dq 10])
  have "e = e'"
    using a1 a2 a3 a4 a5 a6 a7 a8 a9 a10 by (intro log_entry.equality) simp_all
  then show ?thesis using a10 by simp
qed

lemma groupdict_groups_of: "groupdict (m, groups_of e, r) = e"
  by (simp add: groupdict_def group_def groups_of_def)

lemma rmatch_rendered:
  assumes "grammar_fields e"
  shows "set (rmatch LOG_PATTERN (render e @ rest)) = {(render e, groups_of e, rest)}"
proof -
  have "x = (render e, groups_of e, rest)" if "x \<in> set (rmatch LOG_PATTERN (render e @ rest))" for x
  proof -
    have s: "grammar_fields (groupdict x)" "fst x = render (groupdict x)"
      "fst (snd x) = groups_of (groupdict x)" "render e @ rest = fst x @ snd (snd x)"
      using rmatch_LOG_sound[OF that] by simp_all
    have "render (groupdict x) @ snd (snd x) = render e @ rest"
      using s(2) s(4) by simp
    then have "groupdict x = e \<and> snd (snd x) = rest"
      using s(1) assms by (rule render_unique[rotated 2])
    then show ?thesis using s(2) s(3) by (cases x) auto
  qed
  moreover have "(render e, groups_of e, rest) \<in> set (rmatch LOG_PATTERN (render e @ rest))"
    using assms by (rule rmatch_LOG_complete)
  ultimately show ?thesis by blast
qed

lemma first_of_singleton: "set xs = {x} \<Longrightarrow> \<exists>ys. xs = x # ys"
  by (cases xs) auto

lemma search_first: "rmatch r s = x # xs \<Longrightarrow> search r s = Some x"
  by (cases s) simp_all

lemma search_rendered:
  assumes "grammar_fields e"
  shows "search LOG_PATTERN (render e @ rest) = Some (render e, groups_of e, rest)"
proof -
  obtain ys where "rmatch LOG_PATTERN (render e @ rest) = (render e, groups_of e, rest) # ys"
    using first_of_singleton[OF rmatch_rendered[OF assms]] by blast
  then show ?thesis by (rule search_first)
qed

lemma search_Some:
  "search r s = Some x \<Longrightarrow> \<exists>pre s'. s = pre @ s' \<and> x \<in> set (rmatch r s')"
proof (induction s)
  case Nil
  then have "x \<in> set (rmatch r [])" by (auto split: list.splits)
  then show ?case by blast
next
  case (Cons c s)
  show ?case
  proof (cases "rmatch r (c # s)")
    case Nil
    then have "search r s = Some x" using Cons.prems by simp
    then obtain pre s' where "s = pre @ s'" "x \<in> set (rmatch r s')" using Cons.IH by blast
    then have "c # s = (c # pre) @ s'" "x \<in> set (rmatch r s')" by simp_all
    then show ?thesis by blast
  next
    case (Cons y ys)
    then have "x = y" using Cons.prems by simp
    then have "c # s = [] @ (c # s)" "x \<in> set (rmatch r (c # s))" using Cons by simp_all
    then show ?thesis by blast
  qed
qed

lemma search_finds:
  "rmatch r s' \<noteq> [] \<Longrightarrow> search r (pre @ s') \<noteq> None"
proof (induction pre)
  case Nil
  then show ?case by (cases s') (auto split: list.splits)
next
  case (Cons c pre)
  then show ?case by (auto split: list.splits)
qed

lemma search_None_iff:
  "search r s = None \<longleftrightarrow> (\<forall>pre s'. s = pre @ s' \<longrightarrow> rmatch r s' = [])"
proof
  assume n: "search r s = None"
  show "\<forall>pre s'. s = pre @ s' \<longrightarrow> rmatch r s' = []"
  proof (intro allI impI)
    fix pre s' assume "s = pre @ s'"
    then show "rmatch r s' = []" using n search_finds[of r s' pre] by auto
  qed
next
  assume a: "\<forall>pre s'. s = pre @ s' \<longrightarrow> rmatch r s' = []"
  show "search r s = None"
  proof (rule ccontr)
    assume "search r s \<noteq> None"
    then obtain x where "search r s = Some x" by auto
    then obtain pre s' where "s = pre @ s'" "x \<in> set (rmatch r s')" using search_Some by blast
    then show False using a by auto
  qed
qed

lemma rmatch_nonempty_iff:
  "rmatch LOG_PATTERN s \<noteq> [] \<longleftrightarrow> (\<exists>mid post. s = mid @ post \<and> satisfies_grammar mid)"
proof
  assume "rmatch LOG_PATTERN s \<noteq> []"
  then obtain x where x: "x \<in> set (rmatch LOG_PATTERN s)" by (cases "rmatch LOG_PATTERN s") auto
  have "grammar_fields (groupdict x)" "s = render (groupdict x) @ snd (snd x)"
    using rmatch_LOG_sound[OF x] by simp_all
  then show "\<exists>mid post. s = mid @ post \<and> satisfies_grammar mid"
    unfolding satisfies_grammar_def by blast
next
  assume "\<exists>mid post. s = mid @ post \<and> satisfies_grammar mid"
  then obtain e post where "grammar_fields e" "s = render e @ post"
    unfolding satisfies_grammar_def by blast
  then show "rmatch LOG_PATTERN s \<noteq> []"
    using rmatch_rendered[of e post] by auto
qed

lemma parse_line_None_iff:
  "parse_line line = None \<longleftrightarrow>
   \<not> (\<exists>pre mid post. line = pre @ mid @ post \<and> satisfies_grammar mid)"
proof -
  have "parse_line line = None \<longleftrightarrow> (\<forall>pre s'. line = pre @ s' \<longrightarrow> rmatch LOG_PATTERN s' = [])"
    by (simp add: parse_line_def search_None_iff)
  also have "\<dots> \<longleftrightarrow> \<not> (\<exists>pre s'. line = pre @ s' \<and> rmatch LOG_PATTERN s' \<noteq> [])"
    by blast
  also have "\<dots> \<longleftrightarrow> \<not> (\<exists>pre mid post. line = pre @ mid @ post \<and> satisfies_grammar mid)"
    unfolding rmatch_nonempty_iff by blast
  finally show ?thesis .
qed

lemma satisfies_grammar_fullmatch:
  "satisfies_grammar line \<longleftrightarrow> fullmatch LOG_PATTERN line"
proof
  assume "satisfies_grammar line"
  then obtain e where e: "grammar_fields e" "line = render e"
    unfolding satisfies_grammar_def by blast
  have "(render e, groups_of e, []) \<in> set (rmatch LOG_PATTERN (render e @ []))"
    using e(1) by (rule rmatch_LOG_complete)
  then have "(render e, groups_of e, []) \<in> set (rmatch LOG_PATTERN line)"
    using e(2) by simp
  then show "fullmatch LOG_PATTERN line"
    unfolding fullmatch_def list_ex_iff by (rule rev_bexI) simp
next
  assume "fullmatch LOG_PATTERN line"
  then obtain x where x: "x \<in> set (rmatch LOG_PATTERN line)" and r: "snd (snd x) = []"
    unfolding fullmatch_def list_ex_iff by (auto simp: case_prod_beta)
  have "grammar_fields (groupdict x)" "line = render (groupdict x) @ snd (snd x)"
    using rmatch_LOG_sound[OF x] by simp_all
  then show "satisfies_grammar line"
    unfolding satisfies_grammar_def using r by auto
qed

lemma grammar_entry_a: "grammar_fields entry_a"
  by code_simp

lemma satisfies_line_a: "satisfies_grammar line_a"
  unfolding satisfies_grammar_def
  using grammar_entry_a render_entry_a[symmetric] by blast

section \<open>Claims\<close>

text \<open>
  C1, as the code has it. The pattern is searched for in the line, so a line is dropped
  exactly when no part of it satisfies the grammar; a dropped line changes nothing in
  the entries and the loop goes on with the next line. The four sample lines (a missing
  quote, a status of four digits, a request of two tokens, a request of four tokens) are
  dropped.
\<close>

theorem C1_line_without_conforming_part_is_dropped:
  "(parse_line line = None \<longleftrightarrow>
      \<not> (\<exists>pre mid post. line = pre @ mid @ post \<and> satisfies_grammar mid)) \<and>
   (parse_line line = None \<longrightarrow> ingest (line # lines) entries = ingest lines entries) \<and>
   parse_line line_missing_quote = None \<and> parse_line line_long_status = None \<and>
   parse_line line_two_tokens = None \<and> parse_line line_four_tokens = None"
proof (intro conjI)
  show "parse_line line = None \<longleftrightarrow>
      \<not> (\<exists>pre mid post. line = pre @ mid @ post \<and> satisfies_grammar mid)"
    by (rule parse_line_None_iff)
  show "parse_line line = None \<longrightarrow> ingest (line # lines) entries = ingest lines entries"
    by simp
  show "parse_line line_missing_quote = None" by code_simp
  show "parse_line line_long_status = None" by code_simp
  show "parse_line line_two_tokens = None" by code_simp
  show "parse_line line_four_tokens = None" by code_simp
qed

theorem C1_line_without_conforming_part_is_dropped_witness:
  "parse_line ''malformed line'' = None \<and>
   \<not> (\<exists>pre mid post. ''malformed line'' = pre @ mid @ post \<and> satisfies_grammar mid) \<and>
   ingest [line_a, ''malformed line'', line_b] [] = [entry_a, entry_b]"
proof -
  have n: "parse_line ''malformed line'' = None" by code_simp
  have a: "parse_line line_a = Some entry_a" by code_simp
  have b: "ingest [line_b] [entry_a] = [entry_a, entry_b]" by code_simp
  have "ingest (''malformed line'' # [line_b]) [entry_a] = ingest [line_b] [entry_a]"
    using n C1_line_without_conforming_part_is_dropped [of "''malformed line''" "[line_b]" "[entry_a]"]
    by blast
  then have "ingest [line_a, ''malformed line'', line_b] [] = [entry_a, entry_b]"
    using a b by simp
  moreover have "\<not> (\<exists>pre mid post. ''malformed line'' = pre @ mid @ post \<and> satisfies_grammar mid)"
    using n C1_line_without_conforming_part_is_dropped [of "''malformed line''" "[]" "[]"]
    by blast
  ultimately show ?thesis using n by blast
qed

text \<open>
  C1 as stated fails: a conforming line followed by more text does not satisfy the
  grammar, and is parsed all the same.
\<close>

theorem C1_trailing_text_is_parsed:
  "\<not> satisfies_grammar (line_a @ '' trailing'') \<and>
   parse_line (line_a @ '' trailing'') = Some entry_a"
proof
  have "\<not> fullmatch LOG_PATTERN (line_a @ '' trailing'')" by code_simp
  then show "\<not> satisfies_grammar (line_a @ '' trailing'')"
    by (simp add: satisfies_grammar_fullmatch)
  show "parse_line (line_a @ '' trailing'') = Some entry_a" by code_simp
qed



text \<open>
  C9: a line with a part that satisfies the grammar is parsed, whatever text stands
  before and after that part; the entry satisfies the grammar and its rendering is a
  part of the line. With text after the conforming part only, the entry is that of the
  conforming part.
\<close>

theorem C9_conforming_substring_is_parsed:
  assumes "satisfies_grammar mid"
  shows "(\<exists>e pre' post'. parse_line (pre @ mid @ post) = Some e \<and> grammar_fields e \<and>
            pre @ mid @ post = pre' @ render e @ post') \<and>
         (\<exists>e. render e = mid \<and> parse_line (mid @ post) = Some e)"
proof
  obtain e0 where e0: "grammar_fields e0" "mid = render e0"
    using assms unfolding satisfies_grammar_def by blast
  have "rmatch LOG_PATTERN (mid @ post) \<noteq> []"
    using rmatch_rendered[OF e0(1), of post] e0(2) by auto
  then have "search LOG_PATTERN (pre @ mid @ post) \<noteq> None"
    by (rule search_finds)
  then obtain x where x: "search LOG_PATTERN (pre @ mid @ post) = Some x" by auto
  then obtain pre' s' where p: "pre @ mid @ post = pre' @ s'" "x \<in> set (rmatch LOG_PATTERN s')"
    using search_Some by blast
  have "grammar_fields (groupdict x)" "s' = render (groupdict x) @ snd (snd x)"
    using rmatch_LOG_sound[OF p(2)] by simp_all
  moreover have "parse_line (pre @ mid @ post) = Some (groupdict x)"
    using x by (simp add: parse_line_def)
  ultimately show "\<exists>e pre' post'. parse_line (pre @ mid @ post) = Some e \<and> grammar_fields e \<and>
            pre @ mid @ post = pre' @ render e @ post'"
    using p(1) by blast
  have "search LOG_PATTERN (mid @ post) = Some (mid, groups_of e0, post)"
    using search_rendered[OF e0(1), of post] e0(2) by simp
  then have "parse_line (mid @ post) = Some e0"
    by (simp add: parse_line_def groupdict_groups_of)
  then show "\<exists>e. render e = mid \<and> parse_line (mid @ post) = Some e"
    using e0(2) by auto
qed

theorem C9_conforming_substring_is_parsed_witness:
  "satisfies_grammar line_a \<and>
   (\<exists>e pre' post'. parse_line (''junk '' @ line_a @ '' trailing'') = Some e \<and> grammar_fields e \<and>
            ''junk '' @ line_a @ '' trailing'' = pre' @ render e @ post') \<and>
   (\<exists>e. render e = line_a \<and> parse_line (line_a @ '' trailing'') = Some e)"
  using satisfies_line_a
    C9_conforming_substring_is_parsed [OF satisfies_line_a, of "''junk ''" "'' trailing''"]
  by blast



text \<open>
  C3, as the code has it. A missing file is reported on the console by
  \<open>parse_nginx_logs\<close> itself, which then returns the empty list: the value it also
  returns for a readable file none of whose lines match. The caller prints the same
  message and exits with status 1 in both cases.
\<close>

theorem C3_missing_file_returns_empty_list:
  "parse_nginx_logs limit FileNotFound = ([LogFileNotFound ACCESS_LOG], []) \<and>
   fst (parse_nginx_logs limit (Readable file_lines)) = [] \<and>
   main_startup FileNotFound = Exit 1 [LogFileNotFound ACCESS_LOG, NoLogsParsed] \<and>
   (snd (parse_nginx_logs LOG_LIMIT (Readable file_lines)) = [] \<longrightarrow>
      main_startup (Readable file_lines) = Exit 1 [NoLogsParsed])"
  by (simp add: main_startup_def)

theorem C3_missing_file_returns_empty_list_witness:
  "snd (parse_nginx_logs LOG_LIMIT (Readable [''malformed line''])) = [] \<and>
   main_startup (Readable [''malformed line'']) = Exit 1 [NoLogsParsed]"
proof -
  have h: "snd (parse_nginx_logs LOG_LIMIT (Readable [''malformed line''])) = []"
    by code_simp
  show ?thesis
    using h C3_missing_file_returns_empty_list [of 0 "[''malformed line'']"] by blast
qed

text \<open>
  C3 as stated fails: the value returned for a missing file is the value returned for a
  readable file in which no line matches.
\<close>

theorem C3_missing_file_not_distinguished:
  "snd (parse_nginx_logs LOG_LIMIT FileNotFound) =
   snd (parse_nginx_logs LOG_LIMIT (Readable [''malformed line'']))"
  by code_simp

text \<open>
  C5 at the limit 0: \<open>lines[-0:]\<close> is the whole list, so both lines of a two-line file
  are parsed, where the claim allows \<open>min 0 2 = 0\<close> entries.
\<close>

theorem C5_limit_zero_reads_every_line:
  "snd (parse_nginx_logs 0 (Readable [line_a, line_b])) = [entry_a, entry_b]"
  by code_simp

text \<open>
  C6, as the code has it: for every sort that \<open>value_counts\<close> may use, \<open>status_counts\<close>
  lists every status of the store once, with the number of entries that have it, larger
  counts first. The program does nothing about the order of equal counts.
\<close>

theorem C6_status_counts_descending:
  assumes "descending_sort sort_values"
  shows "\<exists>kc. pyget (generate_summary_by sort_values df) ''status_counts'' =
               Some (PDict (map (\<lambda>(k, c). (k, PInt c)) kc)) \<and>
             descending_ranking (map status df) kc"
proof -
  have "pyget (generate_summary_by sort_values df) ''status_counts'' =
        Some (PDict (map (\<lambda>(k, c). (k, PInt c)) (value_counts_by sort_values (map status df))))"
    by (simp add: generate_summary_by_def to_dict_def)
  then show ?thesis
    using value_counts_by_ranking[OF assms, of "map status df"] by blast
qed

theorem C6_status_counts_descending_witness:
  "descending_sort (sort_desc :: (string \<times> nat) list \<Rightarrow> (string \<times> nat) list) \<and>
   (\<exists>kc. pyget (generate_summary_by sort_desc
               [with_status ''200'', with_status ''500'', with_status ''500''])
             ''status_counts'' = Some (PDict (map (\<lambda>(k, c). (k, PInt c)) kc)) \<and>
          descending_ranking
            (map status [with_status ''200'', with_status ''500'', with_status ''500'']) kc)"
  using descending_sort_sort_desc
    C6_status_counts_descending [OF descending_sort_sort_desc,
      of "[with_status ''200'', with_status ''500'', with_status ''500'']"]
  by blast

text \<open>
  C6 as stated fails: nothing makes the order of equal counts the ascending order of the
  codes. With a descending sort that leaves equal counts in the order of the count pass,
  the statuses 500 and 200, once each, are listed as 500, 200.
\<close>

theorem C6_ties_not_by_ascending_code:
  "\<not> (\<forall>sort_values. descending_sort sort_values \<longrightarrow>
        (\<forall>df. \<exists>kc. pyget (generate_summary_by sort_values df) ''status_counts'' =
                       Some (PDict (map (\<lambda>(k, c). (k, PInt c)) kc)) \<and>
                     ranked_code_ascending kc))"
proof
  assume a: "\<forall>sort_values. descending_sort sort_values \<longrightarrow>
        (\<forall>df. \<exists>kc. pyget (generate_summary_by sort_values df) ''status_counts'' =
                       Some (PDict (map (\<lambda>(k, c). (k, PInt c)) kc)) \<and>
                     ranked_code_ascending kc)"
  let ?df = "[with_status ''500'', with_status ''200'']"
  obtain kc where kc: "pyget (generate_summary_by sort_desc ?df) ''status_counts'' = Some (to_dict kc)"
    and r: "ranked_code_ascending kc"
    using a descending_sort_sort_desc unfolding to_dict_def by blast
  have "pyget (generate_summary_by sort_desc ?df) ''status_counts'' =
        Some (to_dict [(''500'', 1), (''200'', 1)])"
    by code_simp
  then have "kc = [(''500'', 1), (''200'', 1)]"
    using kc to_dict_inject by simp
  moreover have "\<not> ranked_code_ascending [(''500'', 1), (''200'', 1)]"
    by code_simp
  ultimately show False using r by simp
qed




text \<open>
  C4, as the code has it. With no status that starts with 5 the result is the empty
  dictionary. Otherwise it is a dictionary with the single key \<open>5xx_errors\<close>, whose
  value maps every status of the store that starts with 5, and no other, to the number
  of entries that have it. On the statuses 500, 500, 503 that is
  \<open>{"5xx_errors": {"500": 2, "503": 1}}\<close>.
\<close>

theorem C4_anomalies_under_5xx_errors:
  "\<exists>kc. detect_anomalies df =
          (if kc = [] then PDict [] else PDict [(''5xx_errors'', to_dict kc)]) \<and>
        (kc = [] \<longleftrightarrow> \<not> list_ex (\<lambda>row. py_startswith (status row) ''5'') df) \<and>
        distinct (map fst kc) \<and>
        set (map fst kc) = {s \<in> set (map status df). py_startswith s ''5''} \<and>
        map snd kc = map (count_list (map status df)) (map fst kc) \<and>
        detect_anomalies [with_status ''500'', with_status ''500'', with_status ''503''] =
          PDict [(''5xx_errors'', PDict [(''500'', PInt 2), (''503'', PInt 1)])]"
proof -
  let ?xs = "filter (\<lambda>s. py_startswith s ''5'') (map status df)"
  let ?kc = "value_counts ?xs"
  have r: "ranking_of ?xs ?kc" by (rule value_counts_ranking)
  have keys: "set (map fst ?kc) = {s \<in> set (map status df). py_startswith s ''5''}"
    using r by (auto simp: ranking_of_def)
  have d: "distinct (map fst ?kc)" using r by (simp add: ranking_of_def)
  have "\<forall>k\<in>set (map fst ?kc). count_list ?xs k = count_list (map status df) k"
  proof
    fix k assume "k \<in> set (map fst ?kc)"
    then have "py_startswith k ''5''" using keys by blast
    then show "count_list ?xs k = count_list (map status df) k"
      by (rule count_list_filter)
  qed
  then have "map (count_list ?xs) (map fst ?kc) = map (count_list (map status df)) (map fst ?kc)"
    by (simp only: map_eq_conv)
  then have cnt: "map snd ?kc = map (count_list (map status df)) (map fst ?kc)"
    using r by (simp add: ranking_of_def)
  have "?kc = [] \<longleftrightarrow> set (map fst ?kc) = {}" by simp
  also have "\<dots> \<longleftrightarrow> \<not> list_ex (\<lambda>row. py_startswith (status row) ''5'') df"
    unfolding keys by (auto simp: list_ex_iff)
  finally have e: "?kc = [] \<longleftrightarrow> \<not> list_ex (\<lambda>row. py_startswith (status row) ''5'') df" .
  have v: "detect_anomalies df = (if ?kc = [] then PDict [] else PDict [(''5xx_errors'', to_dict ?kc)])"
    by (simp add: detect_anomalies_unfold Let_def status_of_filter)
  have x: "detect_anomalies [with_status ''500'', with_status ''500'', with_status ''503''] =
          PDict [(''5xx_errors'', PDict [(''500'', PInt 2), (''503'', PInt 1)])]"
    by code_simp
  show ?thesis
    using v e d keys cnt x by (intro exI[of _ ?kc] conjI)
qed

text \<open>
  C4 as stated fails: on the statuses 500, 500, 503 the result is not the mapping from
  the codes to their counts, it holds that mapping under the key \<open>5xx_errors\<close>.
\<close>

theorem C4_result_is_not_the_flat_mapping:
  "detect_anomalies [with_status ''500'', with_status ''500'', with_status ''503''] \<noteq>
   PDict [(''500'', PInt 2), (''503'', PInt 1)]"
  by code_simp

text \<open>
  C8: the anomalies are shown exactly when the lower-cased question (after the spelling
  correction) contains \<open>anomaly\<close>, the tables exactly when it contains one of the five
  words; each of the four combinations of the two conditions occurs.
\<close>

theorem C8_display_conditions:
  "(display_anomalies q \<longleftrightarrow> (\<exists>pre post. py_lower q = pre @ ''anomaly'' @ post)) \<and>
   (display_tables q \<longleftrightarrow>
      (\<exists>w \<in> set [''status'', ''ip'', ''url'', ''table'', ''top''].
         \<exists>pre post. py_lower q = pre @ w @ post)) \<and>
   (display_anomalies ''any anomaly today?'' \<and> \<not> display_tables ''any anomaly today?'') \<and>
   (\<not> display_anomalies ''show me the top status codes'' \<and>
      display_tables ''show me the top status codes'') \<and>
   (display_anomalies ''Anomaly TABLE'' \<and> display_tables ''Anomaly TABLE'') \<and>
   (\<not> display_anomalies ''hello'' \<and> \<not> display_tables ''hello'')"
proof (intro conjI)
  show "display_anomalies q \<longleftrightarrow> (\<exists>pre post. py_lower q = pre @ ''anomaly'' @ post)"
    by (simp only: display_anomalies_def py_in_iff)
  show "display_tables q \<longleftrightarrow>
      (\<exists>w \<in> set [''status'', ''ip'', ''url'', ''table'', ''top''].
         \<exists>pre post. py_lower q = pre @ w @ post)"
    by (simp only: display_tables_def table_words_def list_ex_iff py_in_iff)
  show "display_anomalies ''any anomaly today?''" by code_simp
  show "\<not> display_tables ''any anomaly today?''" by code_simp
  show "\<not> display_anomalies ''show me the top status codes''" by code_simp
  show "display_tables ''show me the top status codes''" by code_simp
  show "display_anomalies ''Anomaly TABLE''" by code_simp
  show "display_tables ''Anomaly TABLE''" by code_simp
  show "\<not> display_anomalies ''hello''" by code_simp
  show "\<not> display_tables ''hello''" by code_simp
qed

text \<open>
  C10: for a status code that starts with 5 the count the anomaly view reports is the
  count \<open>status_counts\<close> of the summary reports (none in both when no entry has the
  code); for any other code the anomaly view reports nothing.
\<close>

theorem C10_anomalies_agree_with_summary:
  "anomaly_count df code =
     (if py_startswith code ''5'' then summary_count df code else None)"
proof -
  let ?all = "map status df"
  let ?xs = "filter (\<lambda>s. py_startswith s ''5'') ?all"
  have s: "summary_count df code =
           (if code \<in> set ?all then Some (PInt (count_list ?all code)) else None)"
    using map_of_counts[OF value_counts_ranking, of ?all code]
    by (simp add: summary_count_def generate_summary_unfold to_dict_def)
  have a: "anomaly_count df code =
           (if code \<in> set ?xs then Some (PInt (count_list ?xs code)) else None)"
  proof (cases "value_counts ?xs = []")
    case True
    then have "set (map fst (value_counts ?xs)) = {}" by simp
    then have "set ?xs = {}"
      using value_counts_ranking[of ?xs] by (simp only: ranking_of_def)
    then have "code \<notin> set ?xs" by simp
    then show ?thesis using True
      by (simp add: anomaly_count_def detect_anomalies_unfold status_of_filter)
  next
    case False
    then show ?thesis
      using map_of_counts[OF value_counts_ranking, of ?xs code]
      by (simp add: anomaly_count_def detect_anomalies_unfold status_of_filter to_dict_def)
  qed
  show ?thesis
  proof (cases "py_startswith code ''5''")
    case True
    then have "count_list ?xs code = count_list ?all code" by (rule count_list_filter)
    then show ?thesis using True a s by simp
  next
    case False
    then show ?thesis using a by simp
  qed
qed

end
